theory Spec2Isabelle
  imports Main "HOL-Library.FSet" "HOL-Library.Product_Lexorder"
begin

section \<open>Data model\<close>

text \<open>
  A cell is a Python tuple \<open>(i, j)\<close> of unbounded integers. Python sets of cells are
  finite, so they are finite sets here; the knowledge base is a Python list of
  \<open>Sentence\<close> objects, each appended as a fresh object owning a fresh set, so a list of
  values models it without aliasing.
\<close>

type_synonym cell = "int \<times> int"

text \<open>\<open>range(a, b)\<close> over integers: \<open>a, a + 1, ..., b - 1\<close>, empty when \<open>b \<le> a\<close>.\<close>

definition py_range :: "int \<Rightarrow> int \<Rightarrow> int list" where
  "py_range a b = [a..b - 1]"

subsection \<open>The board (class \<open>Minesweeper\<close>)\<close>

text \<open>
  Only the fields read by \<open>nearby_mines\<close> are kept: \<open>height\<close>, \<open>width\<close> and the
  \<open>board\<close> of booleans, indexed \<open>board[i][j]\<close> with \<open>i\<close> the row and \<open>j\<close> the column.
\<close>

record Minesweeper =
  height :: int
  width :: int
  board :: "bool list list"

text \<open>
  \<open>nearby_mines\<close>: the two nested loops over \<open>range(cell[0] - 1, cell[0] + 2)\<close> and
  \<open>range(cell[1] - 1, cell[1] + 2)\<close>; the cell itself is skipped, and the board is
  read only under the guard \<open>0 <= i < self.height and 0 <= j < self.width\<close>.
\<close>

definition in_bounds :: "Minesweeper \<Rightarrow> cell \<Rightarrow> bool" where
  "in_bounds g c = (0 \<le> fst c \<and> fst c < Minesweeper.height g \<and> 0 \<le> snd c \<and> snd c < Minesweeper.width g)"

definition nearby_step :: "Minesweeper \<Rightarrow> cell \<Rightarrow> cell \<Rightarrow> int \<Rightarrow> int" where
  "nearby_step g cell ij cnt =
     (if ij = cell then cnt
      else if in_bounds g ij
           then (if board g ! nat (fst ij) ! nat (snd ij) then cnt + 1 else cnt)
           else cnt)"

definition nearby_mines :: "Minesweeper \<Rightarrow> cell \<Rightarrow> int" where
  "nearby_mines g cell =
     fold (nearby_step g cell)
       (List.product (py_range (fst cell - 1) (fst cell + 2))
                     (py_range (snd cell - 1) (snd cell + 2))) 0"

subsection \<open>Sentences (class \<open>Sentence\<close>)\<close>

record Sentence =
  cells :: "cell fset"
  count :: int

definition known_mines :: "Sentence \<Rightarrow> cell fset option" where
  "known_mines s =
     (if int (fcard (cells s)) = count s \<and> count s \<noteq> 0 then Some (cells s) else None)"

definition known_safes :: "Sentence \<Rightarrow> cell fset option" where
  "known_safes s =
     (if count s = 0 \<and> fcard (cells s) \<noteq> 0 then Some (cells s) else None)"

definition Sentence_mark_mine :: "Sentence \<Rightarrow> cell \<Rightarrow> Sentence" where
  "Sentence_mark_mine s c =
     (if c |\<in>| cells s then s\<lparr>cells := cells s |-| {|c|}, count := count s - 1\<rparr> else s)"

definition Sentence_mark_safe :: "Sentence \<Rightarrow> cell \<Rightarrow> Sentence" where
  "Sentence_mark_safe s c =
     (if c |\<in>| cells s then s\<lparr>cells := cells s |-| {|c|}\<rparr> else s)"

subsection \<open>The agent (class \<open>MinesweeperAI\<close>)\<close>

record MinesweeperAI =
  height :: int
  width :: int
  moves_made :: "cell fset"
  mines :: "cell fset"
  safes :: "cell fset"
  knowledge :: "Sentence list"

text \<open>The constructor.\<close>

definition new_ai :: "int \<Rightarrow> int \<Rightarrow> MinesweeperAI" where
  "new_ai h w = \<lparr>height = h, width = w, moves_made = {||}, mines = {||}, safes = {||},
                 knowledge = []\<rparr>"

definition mark_mine :: "MinesweeperAI \<Rightarrow> cell \<Rightarrow> MinesweeperAI" where
  "mark_mine ai c =
     ai\<lparr>mines := finsert c (mines ai),
        knowledge := map (\<lambda>s. Sentence_mark_mine s c) (knowledge ai)\<rparr>"

definition mark_safe :: "MinesweeperAI \<Rightarrow> cell \<Rightarrow> MinesweeperAI" where
  "mark_safe ai c =
     ai\<lparr>safes := finsert c (safes ai),
        knowledge := map (\<lambda>s. Sentence_mark_safe s c) (knowledge ai)\<rparr>"

text \<open>
  Steps 1 to 3 of \<open>add_knowledge\<close>. The scan runs \<open>i\<close> over
  \<open>range(max(0, cell[0] - 1), min(self.width, cell[0] + 2))\<close> and \<open>j\<close> over
  \<open>range(max(0, cell[1] - 1), min(self.height, cell[1] + 2))\<close>, as the source does,
  carrying the set of neighbours and the running count.
\<close>

definition neighbor_step ::
  "MinesweeperAI \<Rightarrow> cell \<Rightarrow> cell \<Rightarrow> cell fset \<times> int \<Rightarrow> cell fset \<times> int" where
  "neighbor_step ai cell ij acc =
     (case acc of (neighbor_cells, cnt) \<Rightarrow>
        if ij \<noteq> cell
        then (if ij |\<in>| mines ai then (neighbor_cells, cnt - 1)
              else if ij |\<notin>| safes ai then (finsert ij neighbor_cells, cnt)
              else (neighbor_cells, cnt))
        else (neighbor_cells, cnt))"

definition neighbor_scan :: "MinesweeperAI \<Rightarrow> cell \<Rightarrow> int \<Rightarrow> cell fset \<times> int" where
  "neighbor_scan ai cell cnt =
     fold (neighbor_step ai cell)
       (List.product (py_range (max 0 (fst cell - 1)) (min (width ai) (fst cell + 2)))
                     (py_range (max 0 (snd cell - 1)) (min (height ai) (snd cell + 2))))
       ({||}, cnt)"

definition new_sentence :: "MinesweeperAI \<Rightarrow> cell \<Rightarrow> int \<Rightarrow> Sentence" where
  "new_sentence ai cell cnt =
     (case neighbor_scan ai cell cnt of (neighbor_cells, cnt') \<Rightarrow>
        \<lparr>cells = neighbor_cells, count = cnt'\<rparr>)"

definition add_sentence :: "MinesweeperAI \<Rightarrow> cell \<Rightarrow> int \<Rightarrow> MinesweeperAI" where
  "add_sentence ai cell cnt =
     (let a1 = ai\<lparr>moves_made := finsert cell (moves_made ai)\<rparr>;
          a2 = mark_safe a1 cell
      in a2\<lparr>knowledge := knowledge a2 @ [new_sentence a2 cell cnt]\<rparr>)"

text \<open>
  The first loop of \<open>update_knowledge\<close>. The list is walked by position and its length
  does not change while the loop runs (marking only rewrites the sentences in place).
  At position \<open>i\<close> the sentence is read in the current state; each cell of the copied
  conclusion is marked in the whole agent and then once more in the sentence itself,
  which is the list element at \<open>i\<close>. The copied set is walked in sorted order; the
  result does not depend on the order.
\<close>

definition mark_safe_at :: "nat \<Rightarrow> cell \<Rightarrow> MinesweeperAI \<Rightarrow> MinesweeperAI" where
  "mark_safe_at i c ai =
     (let a = mark_safe ai c
      in a\<lparr>knowledge := (knowledge a)[i := Sentence_mark_safe (knowledge a ! i) c]\<rparr>)"

definition mark_mine_at :: "nat \<Rightarrow> cell \<Rightarrow> MinesweeperAI \<Rightarrow> MinesweeperAI" where
  "mark_mine_at i c ai =
     (let a = mark_mine ai c
      in a\<lparr>knowledge := (knowledge a)[i := Sentence_mark_mine (knowledge a ! i) c]\<rparr>)"

definition conclude :: "nat \<Rightarrow> MinesweeperAI \<times> bool \<Rightarrow> MinesweeperAI \<times> bool" where
  "conclude i st =
     (case st of (ai, changed) \<Rightarrow>
        let st1 = (case known_safes (knowledge ai ! i) of
                     Some ks \<Rightarrow> (fold (mark_safe_at i) (sorted_list_of_fset ks) ai, True)
                   | None \<Rightarrow> (ai, changed))
        in (case known_mines (knowledge (fst st1) ! i) of
              Some km \<Rightarrow> (fold (mark_mine_at i) (sorted_list_of_fset km) (fst st1), True)
            | None \<Rightarrow> st1))"

definition conclude_all :: "MinesweeperAI \<Rightarrow> MinesweeperAI \<times> bool" where
  "conclude_all ai = fold conclude [0..<length (knowledge ai)] (ai, False)"

text \<open>
  The clean-up loop: it walks a copy of the knowledge base, and at the first sentence
  with no cells calls \<open>self.knowledge.remove(sentence)\<close> (which deletes the first equal
  element) and leaves the loop with \<open>break\<close>.
\<close>

fun remove_empty :: "Sentence list \<Rightarrow> Sentence list \<Rightarrow> Sentence list" where
  "remove_empty [] kb = kb"
| "remove_empty (s # rest) kb =
     (if fcard (cells s) = 0 then remove1 s kb else remove_empty rest kb)"

text \<open>
  Subset resolution: both loops walk the same copy, \<open>self.knowledge\<close> grows while they
  run, and the membership test looks at the grown list.
\<close>

definition derived :: "Sentence \<Rightarrow> Sentence \<Rightarrow> Sentence" where
  "derived s1 s2 = \<lparr>cells = cells s2 |-| cells s1, count = count s2 - count s1\<rparr>"

definition infer_pair ::
  "Sentence \<Rightarrow> Sentence \<Rightarrow> Sentence list \<times> bool \<Rightarrow> Sentence list \<times> bool" where
  "infer_pair s1 s2 st =
     (case st of (kb, changed) \<Rightarrow>
        if s1 \<noteq> s2
        then (if cells s1 |\<subset>| cells s2
              then (if derived s1 s2 \<notin> set kb then (kb @ [derived s1 s2], True)
                    else (kb, changed))
              else (kb, changed))
        else (kb, changed))"

definition infer_subsets :: "Sentence list \<Rightarrow> Sentence list \<times> bool \<Rightarrow> Sentence list \<times> bool" where
  "infer_subsets knowledge_copy st =
     fold (\<lambda>s1. fold (infer_pair s1) knowledge_copy) knowledge_copy st"

text \<open>One pass of \<open>update_knowledge\<close>, and the recursion on the flag.\<close>

definition update_pass :: "MinesweeperAI \<Rightarrow> MinesweeperAI \<times> bool" where
  "update_pass ai =
     (case conclude_all ai of (a1, changed) \<Rightarrow>
        let kb2 = remove_empty (knowledge a1) (knowledge a1)
        in (case infer_subsets kb2 (kb2, changed) of (kb3, changed') \<Rightarrow>
              (a1\<lparr>knowledge := kb3\<rparr>, changed')))"

partial_function (option) update_knowledge :: "MinesweeperAI \<Rightarrow> MinesweeperAI option" where
  "update_knowledge ai =
     (if snd (update_pass ai) then update_knowledge (fst (update_pass ai))
      else Some (fst (update_pass ai)))"

declare update_knowledge.simps [code]

definition add_knowledge :: "MinesweeperAI \<Rightarrow> cell \<Rightarrow> int \<Rightarrow> MinesweeperAI option" where
  "add_knowledge ai cell cnt = update_knowledge (add_sentence ai cell cnt)"

text \<open>
  The two move queries. Both walk \<open>i\<close> over \<open>range(self.width)\<close> and, inside, \<open>j\<close> over
  \<open>range(self.height)\<close>. The random choice takes its randomness as an argument.
\<close>

definition scanned_cells :: "MinesweeperAI \<Rightarrow> cell list" where
  "scanned_cells ai = List.product (py_range 0 (width ai)) (py_range 0 (height ai))"

definition make_safe_move :: "MinesweeperAI \<Rightarrow> cell option" where
  "make_safe_move ai =
     find (\<lambda>c. c |\<notin>| moves_made ai \<and> c |\<in>| safes ai) (scanned_cells ai)"

definition unknown_cells :: "MinesweeperAI \<Rightarrow> cell list" where
  "unknown_cells ai =
     filter (\<lambda>c. c |\<notin>| moves_made ai \<and> c |\<notin>| mines ai) (scanned_cells ai)"

definition make_random_move :: "nat \<Rightarrow> MinesweeperAI \<Rightarrow> cell option" where
  "make_random_move rnd ai =
     (if length (unknown_cells ai) > 0
      then Some (unknown_cells ai ! (rnd mod length (unknown_cells ai)))
      else None)"

subsection \<open>Sequences of public operations\<close>

text \<open>
  The public operations of the agent, and the agent state after a sequence of them from a
  given state. The two move queries only read the state. A call of \<open>add_knowledge\<close> that
  does not return gives no state.
\<close>

datatype operation =
    MarkMine cell
  | MarkSafe cell
  | AddKnowledge cell int
  | MakeSafeMove
  | MakeRandomMove nat

fun perform :: "MinesweeperAI \<Rightarrow> operation \<Rightarrow> MinesweeperAI option" where
  "perform ai (MarkMine c) = Some (mark_mine ai c)"
| "perform ai (MarkSafe c) = Some (mark_safe ai c)"
| "perform ai (AddKnowledge c n) = add_knowledge ai c n"
| "perform ai MakeSafeMove = Some ai"
| "perform ai (MakeRandomMove rnd) = Some ai"

fun run :: "MinesweeperAI \<Rightarrow> operation list \<Rightarrow> MinesweeperAI option" where
  "run ai [] = Some ai"
| "run ai (x # xs) = (case perform ai x of None \<Rightarrow> None | Some ai' \<Rightarrow> run ai' xs)"

subsection \<open>Auxiliary notions for the proofs\<close>

text \<open>
  Marking a whole set of cells at once, the single changes the propagation makes to the
  agent, and what a run of subset resolution appends.
\<close>

definition remove_cells :: "cell fset \<Rightarrow> Sentence \<Rightarrow> Sentence" where
  "remove_cells X s = s\<lparr>cells := cells s |-| X\<rparr>"

definition remove_mines :: "cell fset \<Rightarrow> Sentence \<Rightarrow> Sentence" where
  "remove_mines X s = s\<lparr>cells := cells s |-| X, count := count s - int (fcard (cells s |\<inter>| X))\<rparr>"

inductive mutation :: "MinesweeperAI \<Rightarrow> MinesweeperAI \<Rightarrow> bool" where
  conclude_safe:
    "s \<in> set (knowledge ai) \<Longrightarrow> count s = 0 \<Longrightarrow> cells s \<noteq> {||} \<Longrightarrow>
     mutation ai (ai\<lparr>safes := safes ai |\<union>| cells s,
                     knowledge := map (remove_cells (cells s)) (knowledge ai)\<rparr>)"
| conclude_mine:
    "s \<in> set (knowledge ai) \<Longrightarrow> int (fcard (cells s)) = count s \<Longrightarrow> count s \<noteq> 0 \<Longrightarrow>
     mutation ai (ai\<lparr>mines := mines ai |\<union>| cells s,
                     knowledge := map (remove_mines (cells s)) (knowledge ai)\<rparr>)"
| purge:
    "s \<in> set (knowledge ai) \<Longrightarrow> cells s = {||} \<Longrightarrow>
     mutation ai (ai\<lparr>knowledge := remove1 s (knowledge ai)\<rparr>)"
| infer:
    "s1 \<in> set (knowledge ai) \<Longrightarrow> s2 \<in> set (knowledge ai) \<Longrightarrow> cells s1 |\<subset>| cells s2 \<Longrightarrow>
     derived s1 s2 \<notin> set (knowledge ai) \<Longrightarrow>
     mutation ai (ai\<lparr>knowledge := knowledge ai @ [derived s1 s2]\<rparr>)"

definition appended ::
  "Sentence list \<times> bool \<Rightarrow> Sentence list \<times> bool \<Rightarrow> Sentence set \<Rightarrow> bool" where
  "appended st st' D =
     (\<exists>new. fst st' = fst st @ new \<and> distinct new \<and> set new = D - set (fst st)
            \<and> snd st' = (snd st \<or> new \<noteq> []))"

definition derivable :: "Sentence set \<Rightarrow> Sentence set \<Rightarrow> Sentence set" where
  "derivable X Y = {derived s1 s2 | s1 s2. s1 \<in> X \<and> s2 \<in> Y \<and> cells s1 |\<subset>| cells s2}"

text \<open>
  No sentence holds a resolved cell; and the sequences of operations in which no
  \<open>mark_mine\<close> names a cell already in \<open>safes\<close> and no \<open>mark_safe\<close> or \<open>add_knowledge\<close>
  names a cell already in \<open>mines\<close>, checked in the state each operation starts from.
\<close>

definition resolved_out :: "MinesweeperAI \<Rightarrow> bool" where
  "resolved_out ai = (\<forall>s\<in>set (knowledge ai). cells s |\<inter>| (safes ai |\<union>| mines ai) = {||})"

fun allowed :: "MinesweeperAI \<Rightarrow> operation \<Rightarrow> bool" where
  "allowed ai (MarkMine c) = (c |\<notin>| safes ai)"
| "allowed ai (MarkSafe c) = (c |\<notin>| mines ai)"
| "allowed ai (AddKnowledge c n) = (c |\<notin>| mines ai)"
| "allowed ai MakeSafeMove = True"
| "allowed ai (MakeRandomMove rnd) = True"

fun guarded :: "MinesweeperAI \<Rightarrow> operation list \<Rightarrow> bool" where
  "guarded ai [] = True"
| "guarded ai (x # xs) =
     (allowed ai x \<and> (case perform ai x of None \<Rightarrow> True | Some ai' \<Rightarrow> guarded ai' xs))"






text \<open>
  A shape of knowledge base that every pass keeps and extends: two disjoint cell-sets
  \<open>X\<close> and \<open>Y\<close> and their union, each with counts in one residue class modulo 3 that
  contains neither 0 nor the size of the cell-set, and two sentences on the union with
  counts 3 apart.
\<close>

definition diverging ::
  "cell fset \<Rightarrow> cell fset \<Rightarrow> int \<Rightarrow> int \<Rightarrow> int \<Rightarrow> int \<Rightarrow> Sentence list \<Rightarrow> bool" where
  "diverging X Y rx ry rz z kb =
     ((\<forall>s\<in>set kb. cells s = X \<and> count s mod 3 = rx
                  \<or> cells s = Y \<and> count s mod 3 = ry
                  \<or> cells s = X |\<union>| Y \<and> count s mod 3 = rz)
      \<and> \<lparr>cells = X |\<union>| Y, count = z\<rparr> \<in> set kb
      \<and> \<lparr>cells = X |\<union>| Y, count = z + 3\<rparr> \<in> set kb
      \<and> (\<exists>s\<in>set kb. cells s = X))"

definition resonant :: "cell fset \<Rightarrow> cell fset \<Rightarrow> int \<Rightarrow> int \<Rightarrow> int \<Rightarrow> bool" where
  "resonant X Y rx ry rz =
     (X \<noteq> {||} \<and> Y \<noteq> {||} \<and> X |\<inter>| Y = {||}
      \<and> rx \<noteq> 0 \<and> rx \<noteq> int (fcard X) mod 3
      \<and> ry \<noteq> 0 \<and> ry \<noteq> int (fcard Y) mod 3
      \<and> rz \<noteq> 0 \<and> rz \<noteq> int (fcard (X |\<union>| Y)) mod 3
      \<and> (rz - rx) mod 3 = ry \<and> (rz - ry) mod 3 = rx)"

text \<open>
  \<open>update_knowledge\<close> calls itself once per pass (the last statement of its body), so every
  pass that sets the flag keeps one more Python frame, and the interpreter raises
  \<open>RecursionError\<close> when the frames run out. \<open>update_knowledge_depth\<close> is the procedure
  with the number of calls of \<open>update_knowledge\<close> that still fit on the stack as its first
  argument; the limit itself is a setting of the interpreter, not of this program.
  \<open>pass_bound\<close> bounds the number of passes of a consistent knowledge base.
\<close>

datatype error = RecursionError

fun update_knowledge_depth :: "nat \<Rightarrow> MinesweeperAI \<Rightarrow> error + MinesweeperAI" where
  "update_knowledge_depth 0 ai = Inl RecursionError"
| "update_knowledge_depth (Suc depth) ai =
     (if snd (update_pass ai) then update_knowledge_depth depth (fst (update_pass ai))
      else Inr (fst (update_pass ai)))"


section \<open>Sentence conclusions\<close>

text \<open>
  C8. \<open>known_mines\<close> returns the whole cell-set exactly when the count equals the number
  of cells and is not zero, and nothing otherwise (so nothing for the empty sentence with
  count 0); \<open>known_safes\<close> returns the whole cell-set exactly when the count is 0 and the
  cell-set is not empty, and nothing otherwise.
\<close>

theorem known_conclusions:
  "(known_mines s = Some r \<longleftrightarrow> r = cells s \<and> int (fcard (cells s)) = count s \<and> count s \<noteq> 0)
   \<and> (known_mines s = None \<longleftrightarrow> \<not> (int (fcard (cells s)) = count s \<and> count s \<noteq> 0))
   \<and> known_mines \<lparr>cells = {||}, count = 0\<rparr> = None
   \<and> (known_safes s = Some r \<longleftrightarrow> r = cells s \<and> count s = 0 \<and> cells s \<noteq> {||})
   \<and> (known_safes s = None \<longleftrightarrow> \<not> (count s = 0 \<and> cells s \<noteq> {||}))"
  by (auto simp: known_mines_def known_safes_def)

section \<open>Row and column bounds of the agent\<close>

text \<open>
  The board reads a cell \<open>(i, j)\<close> under \<open>0 <= i < height\<close> and \<open>0 <= j < width\<close>. The agent
  bounds \<open>i\<close> by its width and \<open>j\<close> by its height, in \<open>add_knowledge\<close> and in both move
  queries. On a board that is not square the two disagree.
\<close>

text \<open>
  C1. On the board of height 1 and width 3 with its one mine at \<open>(0, 1)\<close>, revealing
  \<open>(0, 0)\<close> with its true count 1 appends the sentence \<open>{(1, 0)} = 1\<close>: the cell \<open>(1, 0)\<close>
  is outside the board, and the only neighbour inside it, \<open>(0, 1)\<close>, is missing.
\<close>

theorem add_knowledge_sentence_1x3:
  "nearby_mines \<lparr>Minesweeper.height = 1, width = 3, board = [[False, True, False]]\<rparr> (0, 0) = 1
   \<and> last (knowledge (add_sentence (new_ai 1 3) (0, 0) 1)) = \<lparr>cells = {|(1, 0)|}, count = 1\<rparr>
   \<and> \<not> in_bounds \<lparr>Minesweeper.height = 1, width = 3, board = [[False, True, False]]\<rparr> (1, 0)
   \<and> in_bounds \<lparr>Minesweeper.height = 1, width = 3, board = [[False, True, False]]\<rparr> (0, 1)
   \<and> (0, 1) |\<notin>| cells (last (knowledge (add_sentence (new_ai 1 3) (0, 0) 1)))"
  by code_simp

text \<open>
  C6. On the board of height 1 and width 3, after \<open>mark_safe((0, 2))\<close> the board cell
  \<open>(0, 2)\<close> is known safe and not yet played, and \<open>make_safe_move\<close> returns no move: it
  scans \<open>(0, 0)\<close>, \<open>(1, 0)\<close> and \<open>(2, 0)\<close>. On the board of height 2 and width 3 without
  mines, after revealing \<open>(1, 1)\<close>, \<open>(0, 0)\<close>, \<open>(0, 1)\<close> and \<open>(1, 0)\<close> with their true
  counts 0, \<open>make_safe_move\<close> returns \<open>(2, 0)\<close>, which is not a cell of the board.
\<close>

theorem make_safe_move_off_board:
  "run (new_ai 1 3) [MarkSafe (0, 2)] = Some (mark_safe (new_ai 1 3) (0, 2))
   \<and> in_bounds \<lparr>Minesweeper.height = 1, width = 3, board = [[False, True, False]]\<rparr> (0, 2)
   \<and> (0, 2) |\<in>| safes (mark_safe (new_ai 1 3) (0, 2))
   \<and> (0, 2) |\<notin>| moves_made (mark_safe (new_ai 1 3) (0, 2))
   \<and> scanned_cells (mark_safe (new_ai 1 3) (0, 2)) = [(0, 0), (1, 0), (2, 0)]
   \<and> make_safe_move (mark_safe (new_ai 1 3) (0, 2)) = None
   \<and> map (nearby_mines \<lparr>Minesweeper.height = 2, width = 3,
              board = [[False, False, False], [False, False, False]]\<rparr>)
         [(1, 1), (0, 0), (0, 1), (1, 0)] = [0, 0, 0, 0]
   \<and> map_option make_safe_move
        (run (new_ai 2 3) [AddKnowledge (1, 1) 0, AddKnowledge (0, 0) 0,
                           AddKnowledge (0, 1) 0, AddKnowledge (1, 0) 0])
       = Some (Some (2, 0))
   \<and> \<not> in_bounds \<lparr>Minesweeper.height = 2, width = 3,
            board = [[False, False, False], [False, False, False]]\<rparr> (2, 0)"
  by code_simp

text \<open>
  C7. On a fresh agent for the board of height 1 and width 3, the pool of
  \<open>make_random_move\<close> is \<open>(0, 0)\<close>, \<open>(1, 0)\<close>, \<open>(2, 0)\<close>: the board cells \<open>(0, 1)\<close> and
  \<open>(0, 2)\<close>, neither played nor known mines, are not in it, and the move returned for the
  random index 1 is \<open>(1, 0)\<close>, which is outside the board. On the board of height 2 and
  width 3 without mines, after revealing \<open>(1, 1)\<close>, \<open>(0, 0)\<close>, \<open>(0, 1)\<close> and \<open>(1, 0)\<close> with
  their true counts 0, the pool is \<open>(2, 0)\<close>, \<open>(2, 1)\<close>, while the board cells left are
  \<open>(0, 2)\<close> and \<open>(1, 2)\<close>.
\<close>

theorem make_random_move_off_board:
  "unknown_cells (new_ai 1 3) = [(0, 0), (1, 0), (2, 0)]
   \<and> in_bounds \<lparr>Minesweeper.height = 1, width = 3, board = [[False, True, False]]\<rparr> (0, 1)
   \<and> (0, 1) |\<notin>| moves_made (new_ai 1 3) \<and> (0, 1) |\<notin>| mines (new_ai 1 3)
   \<and> (0, 1) \<notin> set (unknown_cells (new_ai 1 3))
   \<and> make_random_move 1 (new_ai 1 3) = Some (1, 0)
   \<and> \<not> in_bounds \<lparr>Minesweeper.height = 1, width = 3, board = [[False, True, False]]\<rparr> (1, 0)
   \<and> map (nearby_mines \<lparr>Minesweeper.height = 2, width = 3,
              board = [[False, False, False], [False, False, False]]\<rparr>)
         [(1, 1), (0, 0), (0, 1), (1, 0)] = [0, 0, 0, 0]
   \<and> map_option unknown_cells
        (run (new_ai 2 3) [AddKnowledge (1, 1) 0, AddKnowledge (0, 0) 0,
                           AddKnowledge (0, 1) 0, AddKnowledge (1, 0) 0])
       = Some [(2, 0), (2, 1)]
   \<and> map_option moves_made
        (run (new_ai 2 3) [AddKnowledge (1, 1) 0, AddKnowledge (0, 0) 0,
                           AddKnowledge (0, 1) 0, AddKnowledge (1, 0) 0])
       = Some {|(1, 1), (0, 0), (0, 1), (1, 0)|}
   \<and> in_bounds \<lparr>Minesweeper.height = 2, width = 3,
          board = [[False, False, False], [False, False, False]]\<rparr> (0, 2)
   \<and> \<not> in_bounds \<lparr>Minesweeper.height = 2, width = 3,
            board = [[False, False, False], [False, False, False]]\<rparr> (2, 0)
   \<and> \<not> in_bounds \<lparr>Minesweeper.height = 2, width = 3,
            board = [[False, False, False], [False, False, False]]\<rparr> (2, 1)"
  by code_simp

text \<open>
  C9. On the board of height 2 and width 3 with mines at \<open>(0, 1)\<close>, \<open>(1, 1)\<close> and \<open>(1, 2)\<close>,
  revealing the safe cells \<open>(0, 2)\<close> and \<open>(0, 0)\<close> with their true counts 3 and 2 leaves a
  sentence of two cells with count 3 and a sentence made by subset resolution with
  count -1.
\<close>

theorem sentence_counts_2x3:
  "nearby_mines \<lparr>Minesweeper.height = 2, width = 3,
                  board = [[False, True, False], [False, True, True]]\<rparr> (0, 2) = 3
   \<and> nearby_mines \<lparr>Minesweeper.height = 2, width = 3,
                    board = [[False, True, False], [False, True, True]]\<rparr> (0, 0) = 2
   \<and> map_option knowledge (run (new_ai 2 3) [AddKnowledge (0, 2) 3, AddKnowledge (0, 0) 2])
       = Some [\<lparr>cells = {|(0, 1), (1, 1)|}, count = 3\<rparr>,
               \<lparr>cells = {|(0, 1), (1, 0), (1, 1)|}, count = 2\<rparr>,
               \<lparr>cells = {|(1, 0)|}, count = - 1\<rparr>]"
  by code_simp

section \<open>The clean-up of empty sentences\<close>

text \<open>
  C5. On the 3 by 3 board with its one mine in the centre, revealing \<open>(0, 0)\<close>, \<open>(0, 1)\<close>,
  \<open>(2, 0)\<close> and \<open>(0, 2)\<close>, each with its true count 1, ends with a knowledge base that
  holds a sentence with no cells: three equal sentences become empty in one pass, and
  each pass removes one.
\<close>

theorem empty_sentence_survives:
  "map (nearby_mines \<lparr>Minesweeper.height = 3, width = 3,
          board = [[False, False, False], [False, True, False], [False, False, False]]\<rparr>)
       [(0, 0), (0, 1), (2, 0), (0, 2)] = [1, 1, 1, 1]
   \<and> map_option knowledge
        (run (new_ai 3 3) [AddKnowledge (0, 0) 1, AddKnowledge (0, 1) 1,
                           AddKnowledge (2, 0) 1, AddKnowledge (0, 2) 1])
       = Some [\<lparr>cells = {||}, count = 0\<rparr>]"
  by code_simp

section \<open>The propagation as a sequence of single changes\<close>

lemma Sentence_mark_safe_eq: "Sentence_mark_safe s c = remove_cells {|c|} s"
  by (simp add: Sentence_mark_safe_def remove_cells_def)

lemma Sentence_mark_mine_eq: "Sentence_mark_mine s c = remove_mines {|c|} s"
  by (auto simp: Sentence_mark_mine_def remove_mines_def fcard_fempty fcard_finsert_if)

lemma fminus_fminus_funion: "A |-| X |-| Y = A |-| (X |\<union>| Y)"
  by auto

lemma remove_cells_twice: "remove_cells Y (remove_cells X s) = remove_cells (X |\<union>| Y) s"
  by (simp add: remove_cells_def fminus_fminus_funion)

lemma remove_mines_twice:
  "X |\<inter>| Y = {||} \<Longrightarrow> remove_mines Y (remove_mines X s) = remove_mines (X |\<union>| Y) s"
proof -
  assume d: "X |\<inter>| Y = {||}"
  have "cells s |\<inter>| (X |\<union>| Y) = (cells s |\<inter>| X) |\<union>| ((cells s |-| X) |\<inter>| Y)" using d by auto
  moreover have "(cells s |\<inter>| X) |\<inter>| ((cells s |-| X) |\<inter>| Y) = {||}" by auto
  ultimately have "fcard (cells s |\<inter>| (X |\<union>| Y)) = fcard (cells s |\<inter>| X) + fcard ((cells s |-| X) |\<inter>| Y)"
    by (simp add: fcard_funion_disjoint)
  then show ?thesis by (simp add: remove_mines_def fminus_fminus_funion)
qed

lemma list_update_map_idem:
  "(\<And>x. g (f x) = f x) \<Longrightarrow> (map f xs)[i := g (map f xs ! i)] = map f xs"
proof (cases "i < length xs")
  case True
  assume g: "\<And>x. g (f x) = f x"
  have "map f xs ! i = f (xs ! i)" using True by simp
  then have "(map f xs)[i := g (map f xs ! i)] = (map f xs)[i := map f xs ! i]"
    using g by simp
  then show ?thesis by (simp only: list_update_id)
next
  case False
  then show ?thesis by (simp add: list_update_beyond)
qed

lemma mark_safe_at_eq: "mark_safe_at i c ai = mark_safe ai c"
proof -
  have idem: "\<And>s. Sentence_mark_safe (Sentence_mark_safe s c) c = Sentence_mark_safe s c"
    by (simp add: Sentence_mark_safe_def)
  show ?thesis
    unfolding mark_safe_at_def Let_def mark_safe_def
    using list_update_map_idem[of "\<lambda>s. Sentence_mark_safe s c" "\<lambda>s. Sentence_mark_safe s c"
        "knowledge ai" i] idem
    by simp
qed

lemma mark_mine_at_eq: "mark_mine_at i c ai = mark_mine ai c"
proof -
  have idem: "\<And>s. Sentence_mark_mine (Sentence_mark_mine s c) c = Sentence_mark_mine s c"
    by (simp add: Sentence_mark_mine_def)
  show ?thesis
    unfolding mark_mine_at_def Let_def mark_mine_def
    using list_update_map_idem[of "\<lambda>s. Sentence_mark_mine s c" "\<lambda>s. Sentence_mark_mine s c"
        "knowledge ai" i] idem
    by simp
qed

lemma fold_mark_safe_at:
  "fold (mark_safe_at i) xs ai =
     ai\<lparr>safes := safes ai |\<union>| fset_of_list xs,
        knowledge := map (remove_cells (fset_of_list xs)) (knowledge ai)\<rparr>"
proof (induction xs arbitrary: ai)
  case Nil
  show ?case by (simp add: remove_cells_def)
next
  case (Cons c xs)
  have "fold (mark_safe_at i) (c # xs) ai = fold (mark_safe_at i) xs (mark_safe ai c)"
    by (simp add: mark_safe_at_eq)
  also have "\<dots> = (mark_safe ai c)\<lparr>safes := safes (mark_safe ai c) |\<union>| fset_of_list xs,
        knowledge := map (remove_cells (fset_of_list xs)) (knowledge (mark_safe ai c))\<rparr>"
    by (rule Cons.IH)
  also have "\<dots> = ai\<lparr>safes := safes ai |\<union>| fset_of_list (c # xs),
        knowledge := map (remove_cells (fset_of_list (c # xs))) (knowledge ai)\<rparr>"
    by (simp add: mark_safe_def Sentence_mark_safe_eq remove_cells_twice o_def)
  finally show ?case .
qed

lemma fold_mark_mine_at:
  "distinct xs \<Longrightarrow> fold (mark_mine_at i) xs ai =
     ai\<lparr>mines := mines ai |\<union>| fset_of_list xs,
        knowledge := map (remove_mines (fset_of_list xs)) (knowledge ai)\<rparr>"
proof (induction xs arbitrary: ai)
  case Nil
  show ?case by (simp add: remove_mines_def fcard_fempty)
next
  case (Cons c xs)
  then have d: "{|c|} |\<inter>| fset_of_list xs = {||}" by (auto simp: fset_of_list_elem)
  have dx: "distinct xs" using Cons.prems by simp
  have "fold (mark_mine_at i) (c # xs) ai = fold (mark_mine_at i) xs (mark_mine ai c)"
    by (simp add: mark_mine_at_eq)
  also have "\<dots> = (mark_mine ai c)\<lparr>mines := mines (mark_mine ai c) |\<union>| fset_of_list xs,
        knowledge := map (remove_mines (fset_of_list xs)) (knowledge (mark_mine ai c))\<rparr>"
    by (rule Cons.IH[OF dx])
  also have "\<dots> = ai\<lparr>mines := mines ai |\<union>| fset_of_list (c # xs),
        knowledge := map (remove_mines (fset_of_list (c # xs))) (knowledge ai)\<rparr>"
    by (simp add: mark_mine_def Sentence_mark_mine_eq remove_mines_twice[OF d] o_def)
  finally show ?case .
qed

lemma distinct_sorted_list_of_fset: "distinct (sorted_list_of_fset X)"
  by (simp add: sorted_list_of_fset.rep_eq)

lemma conclude_safes:
  assumes "i < length (knowledge ai)" "count (knowledge ai ! i) = 0" "cells (knowledge ai ! i) \<noteq> {||}"
  shows "conclude i (ai, changed) =
     (ai\<lparr>safes := safes ai |\<union>| cells (knowledge ai ! i),
         knowledge := map (remove_cells (cells (knowledge ai ! i))) (knowledge ai)\<rparr>, True)"
proof -
  let ?s = "knowledge ai ! i"
  have ks: "known_safes ?s = Some (cells ?s)" using assms by (simp add: known_safes_def)
  let ?a1 = "ai\<lparr>safes := safes ai |\<union>| cells ?s,
         knowledge := map (remove_cells (cells ?s)) (knowledge ai)\<rparr>"
  have f: "fold (mark_safe_at i) (sorted_list_of_fset (cells ?s)) ai = ?a1"
    by (simp add: fold_mark_safe_at)
  have "knowledge ?a1 ! i = remove_cells (cells ?s) ?s" using assms(1) by simp
  then have km: "known_mines (knowledge ?a1 ! i) = None"
    using assms(2) by (simp add: known_mines_def remove_cells_def)
  show ?thesis
    unfolding conclude_def by (simp only: prod.case ks option.case Let_def f fst_conv km)
qed

lemma conclude_mines:
  assumes "i < length (knowledge ai)" "\<not> (count (knowledge ai ! i) = 0 \<and> cells (knowledge ai ! i) \<noteq> {||})"
    "int (fcard (cells (knowledge ai ! i))) = count (knowledge ai ! i)" "count (knowledge ai ! i) \<noteq> 0"
  shows "conclude i (ai, changed) =
     (ai\<lparr>mines := mines ai |\<union>| cells (knowledge ai ! i),
         knowledge := map (remove_mines (cells (knowledge ai ! i))) (knowledge ai)\<rparr>, True)"
proof -
  let ?s = "knowledge ai ! i"
  have ks: "known_safes ?s = None" using assms by (simp add: known_safes_def)
  have km: "known_mines ?s = Some (cells ?s)" using assms by (simp add: known_mines_def)
  have f: "fold (mark_mine_at i) (sorted_list_of_fset (cells ?s)) ai =
      ai\<lparr>mines := mines ai |\<union>| cells ?s,
         knowledge := map (remove_mines (cells ?s)) (knowledge ai)\<rparr>"
    by (simp add: fold_mark_mine_at distinct_sorted_list_of_fset)
  show ?thesis
    unfolding conclude_def by (simp only: prod.case ks option.case Let_def f fst_conv km)
qed

lemma conclude_none:
  assumes "\<not> (count (knowledge ai ! i) = 0 \<and> cells (knowledge ai ! i) \<noteq> {||})"
    "\<not> (int (fcard (cells (knowledge ai ! i))) = count (knowledge ai ! i) \<and> count (knowledge ai ! i) \<noteq> 0)"
  shows "conclude i (ai, changed) = (ai, changed)"
proof -
  let ?s = "knowledge ai ! i"
  have ks: "known_safes ?s = None" using assms by (simp add: known_safes_def)
  have km: "known_mines ?s = None" using assms by (simp add: known_mines_def)
  show ?thesis
    unfolding conclude_def by (simp only: prod.case ks option.case Let_def fst_conv km)
qed

lemma conclude_cases:
  assumes "i < length (knowledge ai)"
  obtains
    (safe) "count (knowledge ai ! i) = 0" "cells (knowledge ai ! i) \<noteq> {||}"
      "conclude i (ai, changed) =
        (ai\<lparr>safes := safes ai |\<union>| cells (knowledge ai ! i),
         knowledge := map (remove_cells (cells (knowledge ai ! i))) (knowledge ai)\<rparr>, True)"
  | (mine) "int (fcard (cells (knowledge ai ! i))) = count (knowledge ai ! i)"
      "count (knowledge ai ! i) \<noteq> 0"
      "conclude i (ai, changed) =
        (ai\<lparr>mines := mines ai |\<union>| cells (knowledge ai ! i),
         knowledge := map (remove_mines (cells (knowledge ai ! i))) (knowledge ai)\<rparr>, True)"
  | (none) "conclude i (ai, changed) = (ai, changed)"
proof (cases "count (knowledge ai ! i) = 0 \<and> cells (knowledge ai ! i) \<noteq> {||}")
  case True
  then show ?thesis using conclude_safes[OF assms, of changed] safe by blast
next
  case ns: False
  show ?thesis
  proof (cases "int (fcard (cells (knowledge ai ! i))) = count (knowledge ai ! i)
                \<and> count (knowledge ai ! i) \<noteq> 0")
    case True
    then show ?thesis using conclude_mines[OF assms ns, of changed] mine by blast
  next
    case False
    then show ?thesis using conclude_none[OF ns False, of changed] none by blast
  qed
qed

lemma conclude_length:
  "i < length (knowledge ai) \<Longrightarrow>
   length (knowledge (fst (conclude i (ai, changed)))) = length (knowledge ai)"
  by (erule conclude_cases[where changed = changed]) simp_all

lemma conclude_mutation:
  assumes "i < length (knowledge ai)"
  shows "mutation\<^sup>*\<^sup>* ai (fst (conclude i (ai, changed)))"
  using assms
proof (cases rule: conclude_cases[where changed = changed])
  case safe
  have "knowledge ai ! i \<in> set (knowledge ai)" using assms by simp
  from conclude_safe[OF this safe(1,2)] show ?thesis by (simp add: safe(3))
next
  case mine
  have "knowledge ai ! i \<in> set (knowledge ai)" using assms by simp
  from conclude_mine[OF this mine(1,2)] show ?thesis by (simp add: mine(3))
next
  case none
  then show ?thesis by simp
qed

lemma fold_conclude_mutation:
  "\<forall>i\<in>set is. i < length (knowledge ai) \<Longrightarrow>
   mutation\<^sup>*\<^sup>* ai (fst (fold conclude is (ai, changed)))
   \<and> length (knowledge (fst (fold conclude is (ai, changed)))) = length (knowledge ai)"
proof (induction "is" arbitrary: ai changed)
  case Nil
  then show ?case by simp
next
  case (Cons i "is")
  obtain a1 c1 where c: "conclude i (ai, changed) = (a1, c1)" by (cases "conclude i (ai, changed)")
  have i: "i < length (knowledge ai)" using Cons.prems by simp
  have l: "length (knowledge a1) = length (knowledge ai)" using conclude_length[OF i, of changed] c by simp
  have m: "mutation\<^sup>*\<^sup>* ai a1" using conclude_mutation[OF i, of changed] c by simp
  have "\<forall>j\<in>set is. j < length (knowledge a1)" using Cons.prems l by simp
  from Cons.IH[OF this, of c1] m l show ?case by (auto simp: c)
qed

lemma conclude_all_mutation: "mutation\<^sup>*\<^sup>* ai (fst (conclude_all ai))"
  unfolding conclude_all_def using fold_conclude_mutation[of "[0..<length (knowledge ai)]" ai False]
  by simp

lemma remove_empty_cases:
  "set xs \<subseteq> set kb \<Longrightarrow>
   remove_empty xs kb = kb \<and> (\<forall>s\<in>set xs. cells s \<noteq> {||})
   \<or> (\<exists>s\<in>set kb. cells s = {||} \<and> remove_empty xs kb = remove1 s kb)"
  by (induction xs) auto

lemma remove_empty_mutation:
  "mutation\<^sup>*\<^sup>* ai (ai\<lparr>knowledge := remove_empty (knowledge ai) (knowledge ai)\<rparr>)"
proof -
  from remove_empty_cases[of "knowledge ai" "knowledge ai"]
  consider "remove_empty (knowledge ai) (knowledge ai) = knowledge ai"
    | s where "s \<in> set (knowledge ai)" "cells s = {||}"
        "remove_empty (knowledge ai) (knowledge ai) = remove1 s (knowledge ai)"
    by auto
  then show ?thesis
  proof cases
    case 1
    then show ?thesis by simp
  next
    case 2
    from purge[OF 2(1,2)] show ?thesis by (simp add: 2(3))
  qed
qed

lemma appended_refl: "appended st st {}"
  by (simp add: appended_def)

lemma appended_trans:
  assumes "appended st st1 D1" "appended st1 st2 D2"
  shows "appended st st2 (D1 \<union> D2)"
proof -
  from assms(1) obtain n1 where 1: "fst st1 = fst st @ n1" "distinct n1"
    "set n1 = D1 - set (fst st)" "snd st1 = (snd st \<or> n1 \<noteq> [])"
    unfolding appended_def by blast
  from assms(2) obtain n2 where 2: "fst st2 = fst st1 @ n2" "distinct n2"
    "set n2 = D2 - set (fst st1)" "snd st2 = (snd st1 \<or> n2 \<noteq> [])"
    unfolding appended_def by blast
  have a: "fst st2 = fst st @ (n1 @ n2)" using 1 2 by simp
  have b: "distinct (n1 @ n2)" using 1 2 by auto
  have c: "set (n1 @ n2) = (D1 \<union> D2) - set (fst st)" using 1 2 by auto
  have d: "snd st2 = (snd st \<or> n1 @ n2 \<noteq> [])" using 1 2 by auto
  show ?thesis unfolding appended_def using a b c d by blast
qed

lemma infer_pair_appended:
  "appended st (infer_pair s1 s2 st) (if cells s1 |\<subset>| cells s2 then {derived s1 s2} else {})"
proof (cases st)
  case (Pair kb ch)
  show ?thesis
  proof (cases "cells s1 |\<subset>| cells s2")
    case True
    then have ne: "s1 \<noteq> s2" by auto
    show ?thesis
    proof (cases "derived s1 s2 \<in> set kb")
      case True
      with \<open>cells s1 |\<subset>| cells s2\<close> ne show ?thesis
        by (simp add: Pair infer_pair_def appended_def)
    next
      case False
      with \<open>cells s1 |\<subset>| cells s2\<close> ne show ?thesis
        by (auto simp: Pair infer_pair_def appended_def intro!: exI[of _ "[derived s1 s2]"])
    qed
  next
    case False
    then show ?thesis by (simp add: Pair infer_pair_def appended_def)
  qed
qed

lemma derivable_empty: "derivable X {} = {}" "derivable {} Y = {}"
  by (auto simp: derivable_def)

lemma derivable_single:
  "derivable {x} {y} = (if cells x |\<subset>| cells y then {derived x y} else {})"
  by (auto simp: derivable_def)

lemma derivable_Cons_right:
  "derivable X (set (y # ys)) = derivable X {y} \<union> derivable X (set ys)"
  by (auto simp: derivable_def)

lemma derivable_Cons_left:
  "derivable (set (x # xs)) Y = derivable {x} Y \<union> derivable (set xs) Y"
  by (auto simp: derivable_def)

lemma fold_infer_pair_appended:
  "appended st (fold (infer_pair s1) ys st) (derivable {s1} (set ys))"
proof (induction ys arbitrary: st)
  case Nil
  show ?case by (simp add: derivable_empty appended_refl)
next
  case (Cons y ys)
  have "appended st (infer_pair s1 y st) (derivable {s1} {y})"
    using infer_pair_appended[of st s1 y] by (simp only: derivable_single)
  from appended_trans[OF this Cons.IH[of "infer_pair s1 y st"]]
  show ?case by (simp only: derivable_Cons_right fold_simps)
qed

lemma fold_fold_infer_pair_appended:
  "appended st (fold (\<lambda>s1. fold (infer_pair s1) ys) xs st) (derivable (set xs) (set ys))"
proof (induction xs arbitrary: st)
  case Nil
  show ?case by (simp add: derivable_empty appended_refl)
next
  case (Cons x xs)
  from appended_trans[OF fold_infer_pair_appended[of st x ys]
      Cons.IH[of "fold (infer_pair x) ys st"]]
  show ?case by (simp only: derivable_Cons_left fold_simps)
qed

lemma infer_subsets_appended:
  "appended st (infer_subsets kb st) (derivable (set kb) (set kb))"
  unfolding infer_subsets_def by (rule fold_fold_infer_pair_appended)

lemma appended_mutation:
  "distinct new \<Longrightarrow> set new \<subseteq> derivable (set kb) (set kb) \<Longrightarrow> set new \<inter> set kb = {} \<Longrightarrow>
   knowledge ai = kb \<Longrightarrow>
   mutation\<^sup>*\<^sup>* ai (ai\<lparr>knowledge := kb @ new\<rparr>)"
proof (induction new arbitrary: kb ai)
  case Nil
  then have "ai\<lparr>knowledge := kb\<rparr> = ai" by (cases ai) auto
  then show ?case by simp
next
  case (Cons n new)
  from Cons.prems obtain s1 s2 where n: "n = derived s1 s2" "s1 \<in> set kb" "s2 \<in> set kb"
    "cells s1 |\<subset>| cells s2"
    by (auto simp: derivable_def)
  have nin: "n \<notin> set kb" using Cons.prems by auto
  let ?a1 = "ai\<lparr>knowledge := kb @ [n]\<rparr>"
  have m1: "mutation ai ?a1"
    using infer[of s1 ai s2] n nin Cons.prems(4) by simp
  have "derivable (set kb) (set kb) \<subseteq> derivable (set (kb @ [n])) (set (kb @ [n]))"
    by (auto simp: derivable_def)
  then have sub: "set new \<subseteq> derivable (set (kb @ [n])) (set (kb @ [n]))"
    using Cons.prems(2) by auto
  have dis: "set new \<inter> set (kb @ [n]) = {}" using Cons.prems(1,3) by auto
  have d: "distinct new" using Cons.prems(1) by simp
  have "mutation\<^sup>*\<^sup>* ?a1 (?a1\<lparr>knowledge := (kb @ [n]) @ new\<rparr>)"
    by (rule Cons.IH[OF d sub dis]) simp
  then have "mutation\<^sup>*\<^sup>* ?a1 (ai\<lparr>knowledge := kb @ n # new\<rparr>)" by simp
  with m1 show ?case by (rule converse_rtranclp_into_rtranclp)
qed

lemma update_pass_mutation: "mutation\<^sup>*\<^sup>* ai (fst (update_pass ai))"
proof -
  obtain a1 ch1 where ca: "conclude_all ai = (a1, ch1)" by (cases "conclude_all ai")
  let ?kb2 = "remove_empty (knowledge a1) (knowledge a1)"
  let ?a2 = "a1\<lparr>knowledge := ?kb2\<rparr>"
  obtain kb3 ch3 where inf: "infer_subsets ?kb2 (?kb2, ch1) = (kb3, ch3)"
    by (cases "infer_subsets ?kb2 (?kb2, ch1)")
  have up: "fst (update_pass ai) = a1\<lparr>knowledge := kb3\<rparr>"
    by (simp add: update_pass_def ca Let_def inf)
  have m1: "mutation\<^sup>*\<^sup>* ai a1" using conclude_all_mutation[of ai] ca by simp
  have m2: "mutation\<^sup>*\<^sup>* a1 ?a2" by (rule remove_empty_mutation)
  from infer_subsets_appended[of "(?kb2, ch1)" ?kb2] inf
  obtain new where new: "kb3 = ?kb2 @ new" "distinct new"
    "set new = derivable (set ?kb2) (set ?kb2) - set ?kb2"
    by (auto simp: appended_def)
  have "mutation\<^sup>*\<^sup>* ?a2 (?a2\<lparr>knowledge := ?kb2 @ new\<rparr>)"
    by (rule appended_mutation) (use new in auto)
  then have m3: "mutation\<^sup>*\<^sup>* ?a2 (a1\<lparr>knowledge := kb3\<rparr>)" using new(1) by simp
  from m1 m2 m3 show ?thesis unfolding up by (meson rtranclp_trans)
qed

lemma update_knowledge_mutation:
  assumes "update_knowledge ai = Some r"
  shows "mutation\<^sup>*\<^sup>* ai r"
proof (rule update_knowledge.raw_induct[OF _ assms])
  fix f a y
  assume IH: "\<And>x y. f x = Some y \<Longrightarrow> mutation\<^sup>*\<^sup>* x y"
    and eq: "(if snd (update_pass a) then f (fst (update_pass a))
              else Some (fst (update_pass a))) = Some y"
  show "mutation\<^sup>*\<^sup>* a y"
  proof (cases "snd (update_pass a)")
    case True
    with eq IH have "mutation\<^sup>*\<^sup>* (fst (update_pass a)) y" by simp
    with update_pass_mutation[of a] show ?thesis by (meson rtranclp_trans)
  next
    case False
    with eq have "y = fst (update_pass a)" by simp
    then show ?thesis using update_pass_mutation[of a] by simp
  qed
qed

section \<open>Invariants of the agent state\<close>

lemma mutation_grows:
  "mutation a b \<Longrightarrow>
   moves_made b = moves_made a \<and> safes a |\<subseteq>| safes b \<and> mines a |\<subseteq>| mines b"
  by (induction rule: mutation.induct) auto

lemma mutations_grow:
  "mutation\<^sup>*\<^sup>* a b \<Longrightarrow>
   moves_made b = moves_made a \<and> safes a |\<subseteq>| safes b \<and> mines a |\<subseteq>| mines b"
proof (induction rule: rtranclp_induct)
  case base
  show ?case by simp
next
  case (step y z)
  from mutation_grows[OF step.hyps(2)] step.IH show ?case by auto
qed

lemma add_sentence_grows:
  "moves_made ai |\<subseteq>| moves_made (add_sentence ai c n)
   \<and> safes ai |\<subseteq>| safes (add_sentence ai c n)
   \<and> mines (add_sentence ai c n) = mines ai"
  by (auto simp: add_sentence_def Let_def mark_safe_def)

text \<open>
  C10. Every public operation that returns leaves \<open>moves_made\<close>, \<open>safes\<close> and \<open>mines\<close>
  at least as large as it found them: no cell recorded as played, safe or mine is ever
  taken back.
\<close>

theorem sets_grow:
  assumes "perform ai x = Some ai'"
  shows "moves_made ai |\<subseteq>| moves_made ai' \<and> safes ai |\<subseteq>| safes ai' \<and> mines ai |\<subseteq>| mines ai'"
proof (cases x)
  case (MarkMine c)
  with assms show ?thesis by (auto simp: mark_mine_def)
next
  case (MarkSafe c)
  with assms show ?thesis by (auto simp: mark_safe_def)
next
  case (AddKnowledge c n)
  with assms have "update_knowledge (add_sentence ai c n) = Some ai'"
    by (simp add: add_knowledge_def)
  from mutations_grow[OF update_knowledge_mutation[OF this]] add_sentence_grows[of ai c n]
  show ?thesis by auto
next
  case MakeSafeMove
  with assms show ?thesis by auto
next
  case (MakeRandomMove rnd)
  with assms show ?thesis by auto
qed

theorem sets_grow_witness:
  "perform (new_ai 3 3) (AddKnowledge (0, 0) 0)
     = Some \<lparr>height = 3, width = 3, moves_made = {|(0, 0)|}, mines = {||},
             safes = {|(0, 0), (0, 1), (1, 0), (1, 1)|}, knowledge = []\<rparr>
   \<and> moves_made (new_ai 3 3) |\<subseteq>| {|(0, 0)|}
   \<and> safes (new_ai 3 3) |\<subseteq>| {|(0, 0), (0, 1), (1, 0), (1, 1)|}
   \<and> mines (new_ai 3 3) |\<subseteq>| {||}"
proof -
  have e: "perform (new_ai 3 3) (AddKnowledge (0, 0) 0)
     = Some \<lparr>height = 3, width = 3, moves_made = {|(0, 0)|}, mines = {||},
             safes = {|(0, 0), (0, 1), (1, 0), (1, 1)|}, knowledge = []\<rparr>"
    by code_simp
  from sets_grow[OF e] e show ?thesis by simp
qed

lemma finter_empty_iff: "(A |\<inter>| B = {||}) = (\<forall>x. x |\<in>| A \<longrightarrow> x |\<notin>| B)"
  by auto

lemma resolved_out_iff:
  "resolved_out ai =
     (\<forall>s\<in>set (knowledge ai). \<forall>x. x |\<in>| cells s \<longrightarrow> x |\<notin>| safes ai \<and> x |\<notin>| mines ai)"
  unfolding resolved_out_def finter_empty_iff by auto

lemma mutation_resolved_out:
  "mutation a b \<Longrightarrow> resolved_out a \<Longrightarrow> resolved_out b"
proof (induction rule: mutation.induct)
  case (conclude_safe s ai)
  then show ?case by (auto simp: resolved_out_iff remove_cells_def)
next
  case (conclude_mine s ai)
  then show ?case by (auto simp: resolved_out_iff remove_mines_def)
next
  case (purge s ai)
  then show ?case by (auto simp: resolved_out_iff dest: notin_set_remove1)
next
  case (infer s1 ai s2)
  then show ?case by (auto simp: resolved_out_iff derived_def)
qed

lemma mutation_disjoint:
  "mutation a b \<Longrightarrow> resolved_out a \<Longrightarrow> safes a |\<inter>| mines a = {||} \<Longrightarrow>
   safes b |\<inter>| mines b = {||}"
proof (induction rule: mutation.induct)
  case (conclude_safe s ai)
  then have "\<forall>x. x |\<in>| cells s \<longrightarrow> x |\<notin>| mines ai" by (auto simp: resolved_out_iff)
  with conclude_safe show ?case by (auto simp: finter_empty_iff)
next
  case (conclude_mine s ai)
  then have "\<forall>x. x |\<in>| cells s \<longrightarrow> x |\<notin>| safes ai" by (auto simp: resolved_out_iff)
  with conclude_mine show ?case by (auto simp: finter_empty_iff)
next
  case (purge s ai)
  then show ?case by simp
next
  case (infer s1 ai s2)
  then show ?case by simp
qed

lemma mutations_resolved_out:
  "mutation\<^sup>*\<^sup>* a b \<Longrightarrow> resolved_out a \<Longrightarrow>
   resolved_out b \<and> (safes a |\<inter>| mines a = {||} \<longrightarrow> safes b |\<inter>| mines b = {||})"
proof (induction rule: rtranclp_induct)
  case base
  then show ?case by simp
next
  case (step y z)
  then show ?case using mutation_resolved_out[of y z] mutation_disjoint[of y z] by blast
qed

lemma fold_neighbor_step_unresolved:
  "nb |\<inter>| (safes ai |\<union>| mines ai) = {||} \<Longrightarrow>
   fst (fold (neighbor_step ai cell) xs (nb, cnt)) |\<inter>| (safes ai |\<union>| mines ai) = {||}"
proof (induction xs arbitrary: nb cnt)
  case Nil
  then show ?case by simp
next
  case (Cons x xs)
  obtain nb' cnt' where st: "neighbor_step ai cell x (nb, cnt) = (nb', cnt')"
    by (cases "neighbor_step ai cell x (nb, cnt)")
  then have "nb' |\<inter>| (safes ai |\<union>| mines ai) = {||}"
    using Cons.prems by (auto simp: neighbor_step_def split: if_splits)
  from Cons.IH[OF this] show ?case by (simp add: st)
qed

lemma new_sentence_unresolved:
  "cells (new_sentence ai cell cnt) |\<inter>| (safes ai |\<union>| mines ai) = {||}"
proof -
  obtain nb c where ns: "neighbor_scan ai cell cnt = (nb, c)" by (cases "neighbor_scan ai cell cnt")
  have "fst (neighbor_scan ai cell cnt) |\<inter>| (safes ai |\<union>| mines ai) = {||}"
    unfolding neighbor_scan_def by (rule fold_neighbor_step_unresolved) simp
  then show ?thesis by (simp add: new_sentence_def ns)
qed

lemma mark_safe_resolved_out: "resolved_out ai \<Longrightarrow> resolved_out (mark_safe ai c)"
  by (auto simp: resolved_out_iff mark_safe_def Sentence_mark_safe_def)

lemma mark_mine_resolved_out: "resolved_out ai \<Longrightarrow> resolved_out (mark_mine ai c)"
  by (auto simp: resolved_out_iff mark_mine_def Sentence_mark_mine_def)

lemma add_sentence_resolved_out:
  assumes "resolved_out ai"
  shows "resolved_out (add_sentence ai c n)"
proof -
  let ?a1 = "ai\<lparr>moves_made := finsert c (moves_made ai)\<rparr>"
  let ?a2 = "mark_safe ?a1 c"
  have "resolved_out ?a1" using assms by (simp add: resolved_out_iff)
  then have r2: "resolved_out ?a2" by (rule mark_safe_resolved_out)
  have "cells (new_sentence ?a2 c n) |\<inter>| (safes ?a2 |\<union>| mines ?a2) = {||}"
    by (rule new_sentence_unresolved)
  with r2 have "resolved_out (?a2\<lparr>knowledge := knowledge ?a2 @ [new_sentence ?a2 c n]\<rparr>)"
    by (auto simp: resolved_out_def)
  then show ?thesis by (simp add: add_sentence_def Let_def)
qed

lemma add_sentence_sets:
  "safes (add_sentence ai c n) = finsert c (safes ai)" "mines (add_sentence ai c n) = mines ai"
  by (simp_all add: add_sentence_def Let_def mark_safe_def)

lemma perform_resolved_out:
  assumes "perform a x = Some b" "resolved_out a"
  shows "resolved_out b \<and>
         (allowed a x \<longrightarrow> safes a |\<inter>| mines a = {||} \<longrightarrow> safes b |\<inter>| mines b = {||})"
proof (cases x)
  case (MarkMine c)
  with assms show ?thesis using mark_mine_resolved_out[of a c] by (auto simp: mark_mine_def)
next
  case (MarkSafe c)
  with assms show ?thesis using mark_safe_resolved_out[of a c] by (auto simp: mark_safe_def)
next
  case (AddKnowledge c n)
  with assms have u: "update_knowledge (add_sentence a c n) = Some b"
    by (simp add: add_knowledge_def)
  have r: "resolved_out (add_sentence a c n)" by (rule add_sentence_resolved_out[OF assms(2)])
  have d: "allowed a x \<Longrightarrow> safes a |\<inter>| mines a = {||} \<Longrightarrow>
        safes (add_sentence a c n) |\<inter>| mines (add_sentence a c n) = {||}"
    by (auto simp: AddKnowledge add_sentence_sets)
  from mutations_resolved_out[OF update_knowledge_mutation[OF u] r] d show ?thesis by blast
next
  case MakeSafeMove
  with assms show ?thesis by auto
next
  case (MakeRandomMove rnd)
  with assms show ?thesis by auto
qed

lemma run_resolved_out:
  "run a ops = Some b \<Longrightarrow> resolved_out a \<Longrightarrow>
   resolved_out b \<and>
   (guarded a ops \<longrightarrow> safes a |\<inter>| mines a = {||} \<longrightarrow> safes b |\<inter>| mines b = {||})"
proof (induction ops arbitrary: a)
  case Nil
  then show ?case by simp
next
  case (Cons x xs)
  from Cons.prems(1) obtain a1 where p: "perform a x = Some a1" and r: "run a1 xs = Some b"
    by (auto split: option.splits)
  from perform_resolved_out[OF p Cons.prems(2)] Cons.IH[OF r] p show ?case by auto
qed

text \<open>
  C2, as amended. In every state reached from a fresh agent by public operations, no
  sentence of the knowledge base holds a cell that is in \<open>safes\<close> or in \<open>mines\<close>. The two
  sets are disjoint as long as no \<open>mark_mine\<close> names a cell already in \<open>safes\<close> and no
  \<open>mark_safe\<close> or \<open>add_knowledge\<close> names a cell already in \<open>mines\<close>.
\<close>

theorem resolved_cells_guarded:
  assumes "run (new_ai h w) ops = Some ai"
  shows "(\<forall>s\<in>set (knowledge ai). cells s |\<inter>| (safes ai |\<union>| mines ai) = {||})
         \<and> (guarded (new_ai h w) ops \<longrightarrow> safes ai |\<inter>| mines ai = {||})"
proof -
  have "resolved_out (new_ai h w)" by (simp add: resolved_out_def new_ai_def)
  from run_resolved_out[OF assms this] show ?thesis
    by (simp add: resolved_out_def new_ai_def)
qed

theorem resolved_cells_guarded_witness:
  "run (new_ai 3 3) [AddKnowledge (0, 0) 1, AddKnowledge (0, 1) 1]
     = Some \<lparr>height = 3, width = 3, moves_made = {|(0, 0), (0, 1)|}, mines = {||},
             safes = {|(0, 0), (0, 1), (0, 2), (1, 2)|},
             knowledge = [\<lparr>cells = {|(1, 0), (1, 1)|}, count = 1\<rparr>,
                          \<lparr>cells = {|(1, 0), (1, 1)|}, count = 1\<rparr>]\<rparr>
   \<and> guarded (new_ai 3 3) [AddKnowledge (0, 0) 1, AddKnowledge (0, 1) 1]
   \<and> {|(1, 0), (1, 1)|} |\<inter>| ({|(0, 0), (0, 1), (0, 2), (1, 2)|} |\<union>| {||}) = ({||} :: cell fset)
   \<and> {|(0, 0), (0, 1), (0, 2), (1, 2)|} |\<inter>| {||} = ({||} :: cell fset)"
proof -
  have e: "run (new_ai 3 3) [AddKnowledge (0, 0) 1, AddKnowledge (0, 1) 1]
     = Some \<lparr>height = 3, width = 3, moves_made = {|(0, 0), (0, 1)|}, mines = {||},
             safes = {|(0, 0), (0, 1), (0, 2), (1, 2)|},
             knowledge = [\<lparr>cells = {|(1, 0), (1, 1)|}, count = 1\<rparr>,
                          \<lparr>cells = {|(1, 0), (1, 1)|}, count = 1\<rparr>]\<rparr>"
    by code_simp
  have g: "guarded (new_ai 3 3) [AddKnowledge (0, 0) 1, AddKnowledge (0, 1) 1]"
    by code_simp
  from resolved_cells_guarded[OF e] e g show ?thesis by simp
qed

text \<open>
  Against C2 as stated: \<open>mark_mine((0, 0))\<close> followed by \<open>mark_safe((0, 0))\<close> on a fresh
  agent leaves \<open>(0, 0)\<close> in both sets.
\<close>

theorem safes_mines_overlap:
  "run (new_ai 8 8) [MarkMine (0, 0), MarkSafe (0, 0)]
     = Some \<lparr>height = 8, width = 8, moves_made = {||}, mines = {|(0, 0)|},
             safes = {|(0, 0)|}, knowledge = []\<rparr>
   \<and> {|(0, 0)|} |\<inter>| {|(0, 0)|} \<noteq> ({||} :: cell fset)"
  by code_simp

section \<open>Termination of the propagation\<close>

























lemma update_knowledge_depth_returns:
  "update_knowledge_depth depth ai = Inr r \<Longrightarrow> update_knowledge ai = Some r"
proof (induction depth arbitrary: ai)
  case 0
  then show ?case by simp
next
  case (Suc depth)
  show ?case
  proof (cases "snd (update_pass ai)")
    case True
    with Suc have "update_knowledge (fst (update_pass ai)) = Some r" by simp
    with True show ?thesis by (subst update_knowledge.simps) simp
  next
    case False
    with Suc.prems have "r = fst (update_pass ai)" by simp
    with False show ?thesis by (subst update_knowledge.simps) simp
  qed
qed



subsection \<open>A knowledge base on which the propagation never stops\<close>

lemma conclude_nothing:
  "known_safes (knowledge ai ! i) = None \<Longrightarrow> known_mines (knowledge ai ! i) = None \<Longrightarrow>
   conclude i (ai, changed) = (ai, changed)"
  by (simp add: conclude_def)

lemma fold_conclude_nothing:
  "\<forall>i\<in>set is. known_safes (knowledge ai ! i) = None \<and> known_mines (knowledge ai ! i) = None \<Longrightarrow>
   fold conclude is (ai, changed) = (ai, changed)"
  by (induction "is") (simp_all add: conclude_nothing)

lemma conclude_all_nothing:
  assumes "\<forall>s\<in>set (knowledge ai). known_safes s = None \<and> known_mines s = None"
  shows "conclude_all ai = (ai, False)"
  unfolding conclude_all_def
  by (rule fold_conclude_nothing) (use assms in simp)

lemma remove_empty_nothing:
  assumes "\<forall>s\<in>set kb. cells s \<noteq> {||}"
  shows "remove_empty kb kb = kb"
  using remove_empty_cases[of kb kb] assms by auto

lemma resonant_quiet:
  assumes "c mod 3 = r" "r \<noteq> 0" "r \<noteq> int (fcard A) mod 3"
  shows "c \<noteq> 0 \<and> int (fcard A) \<noteq> c"
proof -
  have "c \<noteq> 0" using assms(1,2) by auto
  moreover have "int (fcard A) \<noteq> c" using assms(1,3) by auto
  ultimately show ?thesis by simp
qed

lemma diverging_quiet:
  assumes "resonant X Y rx ry rz" "diverging X Y rx ry rz z kb" "s \<in> set kb"
  shows "known_safes s = None \<and> known_mines s = None \<and> cells s \<noteq> {||}"
proof -
  have r: "X \<noteq> {||}" "Y \<noteq> {||}" "rx \<noteq> 0" "rx \<noteq> int (fcard X) mod 3"
    "ry \<noteq> 0" "ry \<noteq> int (fcard Y) mod 3" "rz \<noteq> 0" "rz \<noteq> int (fcard (X |\<union>| Y)) mod 3"
    using assms(1) unfolding resonant_def by blast+
  have xy: "X |\<union>| Y \<noteq> {||}" using r(1) by auto
  from assms(2,3) consider "cells s = X" "count s mod 3 = rx"
    | "cells s = Y" "count s mod 3 = ry"
    | "cells s = X |\<union>| Y" "count s mod 3 = rz"
    unfolding diverging_def by blast
  then have "count s \<noteq> 0 \<and> int (fcard (cells s)) \<noteq> count s \<and> cells s \<noteq> {||}"
  proof cases
    case 1
    from resonant_quiet[OF 1(2) r(3,4)] r(1) 1(1) show ?thesis by simp
  next
    case 2
    from resonant_quiet[OF 2(2) r(5,6)] r(2) 2(1) show ?thesis by simp
  next
    case 3
    from resonant_quiet[OF 3(2) r(7,8)] xy 3(1) show ?thesis by simp
  qed
  then show ?thesis by (simp add: known_safes_def known_mines_def)
qed

lemma diverging_derived:
  assumes "resonant X Y rx ry rz" "diverging X Y rx ry rz z kb"
    "s1 \<in> set kb" "s2 \<in> set kb" "cells s1 |\<subset>| cells s2"
  shows "cells (derived s1 s2) = X \<and> count (derived s1 s2) mod 3 = rx
       \<or> cells (derived s1 s2) = Y \<and> count (derived s1 s2) mod 3 = ry"
proof -
  have r: "X \<noteq> {||}" "Y \<noteq> {||}" "X |\<inter>| Y = {||}" "(rz - rx) mod 3 = ry" "(rz - ry) mod 3 = rx"
    using assms(1) by (simp_all add: resonant_def)
  have zx: "(X |\<union>| Y) |-| X = Y" and zy: "(X |\<union>| Y) |-| Y = X" using r(3) by auto
  have nxy: "\<not> X |\<subset>| Y" "\<not> Y |\<subset>| X" using r(1,2,3) by auto
  have nz: "\<not> (X |\<union>| Y) |\<subset>| X" "\<not> (X |\<union>| Y) |\<subset>| Y" by auto
  from assms(2,3) consider (x) "cells s1 = X" "count s1 mod 3 = rx"
    | (y) "cells s1 = Y" "count s1 mod 3 = ry"
    | (z) "cells s1 = X |\<union>| Y" "count s1 mod 3 = rz"
    unfolding diverging_def by blast
  then show ?thesis
  proof cases
    case x
    with assms(2,4,5) nxy have 2: "cells s2 = X |\<union>| Y" "count s2 mod 3 = rz"
      unfolding diverging_def by auto
    have "(count s2 - count s1) mod 3 = ry" using x(2) 2(2) r(4) by (metis mod_diff_eq)
    then show ?thesis using x(1) 2(1) zx by (simp add: derived_def)
  next
    case y
    with assms(2,4,5) nxy have 2: "cells s2 = X |\<union>| Y" "count s2 mod 3 = rz"
      unfolding diverging_def by auto
    have "(count s2 - count s1) mod 3 = rx" using y(2) 2(2) r(5) by (metis mod_diff_eq)
    then show ?thesis using y(1) 2(1) zy by (simp add: derived_def)
  next
    case z
    with assms(2,4,5) nz show ?thesis unfolding diverging_def by auto
  qed
qed

lemma diverging_not_closed:
  assumes "resonant X Y rx ry rz" "diverging X Y rx ry rz z kb"
  shows "\<not> derivable (set kb) (set kb) \<subseteq> set kb"
proof
  assume closed: "derivable (set kb) (set kb) \<subseteq> set kb"
  have r: "X \<noteq> {||}" "Y \<noteq> {||}" "X |\<inter>| Y = {||}" using assms(1) by (simp_all add: resonant_def)
  have zx: "(X |\<union>| Y) |-| X = Y" and zy: "(X |\<union>| Y) |-| Y = X" using r(3) by auto
  have xz: "X |\<subset>| X |\<union>| Y" and yz: "Y |\<subset>| X |\<union>| Y" using r by auto
  let ?C = "count ` {s \<in> set kb. cells s = X}"
  have fin: "finite ?C" by simp
  have ne: "?C \<noteq> {}" using assms(2) unfolding diverging_def by auto
  from Max_in[OF fin ne] obtain s where s: "s \<in> set kb" "cells s = X" "count s = Max ?C" by auto
  have z1: "\<lparr>cells = X |\<union>| Y, count = z\<rparr> \<in> set kb"
    and z2: "\<lparr>cells = X |\<union>| Y, count = z + 3\<rparr> \<in> set kb"
    using assms(2) unfolding diverging_def by auto
  have d1: "derived s \<lparr>cells = X |\<union>| Y, count = z\<rparr> \<in> derivable (set kb) (set kb)"
    unfolding derivable_def using s(1,2) z1 xz by fastforce
  have e1: "derived s \<lparr>cells = X |\<union>| Y, count = z\<rparr> = \<lparr>cells = Y, count = z - Max ?C\<rparr>"
    using s(2,3) zx by (simp add: derived_def)
  have t: "\<lparr>cells = Y, count = z - Max ?C\<rparr> \<in> set kb"
    using d1 closed unfolding e1 by blast
  have d2: "derived \<lparr>cells = Y, count = z - Max ?C\<rparr> \<lparr>cells = X |\<union>| Y, count = z + 3\<rparr>
          \<in> derivable (set kb) (set kb)"
    unfolding derivable_def using t z2 yz by fastforce
  have e2: "derived \<lparr>cells = Y, count = z - Max ?C\<rparr> \<lparr>cells = X |\<union>| Y, count = z + 3\<rparr>
          = \<lparr>cells = X, count = Max ?C + 3\<rparr>"
    using zy by (simp add: derived_def)
  have u: "\<lparr>cells = X, count = Max ?C + 3\<rparr> \<in> set kb"
    using d2 closed unfolding e2 by blast
  have "count \<lparr>cells = X, count = Max ?C + 3\<rparr> \<in> ?C"
    by (rule imageI) (use u in simp)
  then have "Max ?C + 3 \<in> ?C" by simp
  from Max_ge[OF fin this] show False by simp
qed

lemma diverging_pass:
  assumes "resonant X Y rx ry rz" "diverging X Y rx ry rz z (knowledge ai)"
  shows "snd (update_pass ai) \<and> diverging X Y rx ry rz z (knowledge (fst (update_pass ai)))"
proof -
  let ?kb = "knowledge ai"
  have q: "\<forall>s\<in>set ?kb. known_safes s = None \<and> known_mines s = None"
    and e: "\<forall>s\<in>set ?kb. cells s \<noteq> {||}"
    using diverging_quiet[OF assms] by auto
  have ca: "conclude_all ai = (ai, False)" by (rule conclude_all_nothing[OF q])
  have re: "remove_empty ?kb ?kb = ?kb" by (rule remove_empty_nothing[OF e])
  obtain kb3 ch3 where inf: "infer_subsets ?kb (?kb, False) = (kb3, ch3)"
    by (cases "infer_subsets ?kb (?kb, False)")
  have up: "update_pass ai = (ai\<lparr>knowledge := kb3\<rparr>, ch3)"
    by (simp add: update_pass_def ca Let_def re inf)
  from infer_subsets_appended[of "(?kb, False)" ?kb] inf
  obtain new where new: "kb3 = ?kb @ new"
    "set new = derivable (set ?kb) (set ?kb) - set ?kb" "ch3 = (new \<noteq> [])"
    by (auto simp: appended_def)
  have "set new \<noteq> {}" using diverging_not_closed[OF assms] new(2) by auto
  then have ch: "ch3" using new(3) by auto
  have "\<forall>n\<in>set new. cells n = X \<and> count n mod 3 = rx \<or> cells n = Y \<and> count n mod 3 = ry"
  proof
    fix n assume "n \<in> set new"
    then have "n \<in> derivable (set ?kb) (set ?kb)" using new(2) by auto
    then obtain s1 s2 where "n = derived s1 s2" "s1 \<in> set ?kb" "s2 \<in> set ?kb"
      "cells s1 |\<subset>| cells s2" unfolding derivable_def by auto
    with diverging_derived[OF assms, of s1 s2]
    show "cells n = X \<and> count n mod 3 = rx \<or> cells n = Y \<and> count n mod 3 = ry" by simp
  qed
  then have "diverging X Y rx ry rz z (?kb @ new)"
    using assms(2) unfolding diverging_def by auto
  with ch show ?thesis by (simp add: up new(1))
qed

lemma diverging_never_returns:
  assumes "resonant X Y rx ry rz" "diverging X Y rx ry rz z (knowledge ai)"
  shows "update_knowledge ai = None"
proof (rule ccontr)
  assume "update_knowledge ai \<noteq> None"
  then obtain r where r: "update_knowledge ai = Some r" by auto
  have "\<not> diverging X Y rx ry rz z (knowledge ai)"
  proof (rule update_knowledge.raw_induct[OF _ r])
    fix f a y
    assume IH: "\<And>x y. f x = Some y \<Longrightarrow> \<not> diverging X Y rx ry rz z (knowledge x)"
      and eq: "(if snd (update_pass a) then f (fst (update_pass a))
                else Some (fst (update_pass a))) = Some y"
    show "\<not> diverging X Y rx ry rz z (knowledge a)"
    proof
      assume d: "diverging X Y rx ry rz z (knowledge a)"
      from diverging_pass[OF assms(1) d] eq IH show False by auto
    qed
  qed
  with assms(2) show False by simp
qed


lemma diverging_raises:
  assumes "resonant X Y rx ry rz" "diverging X Y rx ry rz z (knowledge ai)"
  shows "update_knowledge_depth depth ai = Inl RecursionError"
proof (cases "update_knowledge_depth depth ai")
  case (Inl e)
  then show ?thesis by (cases e) simp
next
  case (Inr r)
  from update_knowledge_depth_returns[OF Inr] diverging_never_returns[OF assms]
  show ?thesis by simp
qed


section \<open>Subset resolution\<close>

lemma three_cells:
  assumes "a \<noteq> b" "a \<noteq> c" "b \<noteq> (c::cell)"
  shows "fcard {|a, b|} = 2" "fcard {|a, b, c|} = 3" "fcard {|c|} = 1"
    "{|a, b|} |\<subset>| {|a, b, c|}" "\<not> {|a, b, c|} |\<subset>| {|a, b|}"
    "{|a, b, c|} |-| {|a, b|} = {|c|}" "{|a, b, c|} |-| {|c|} = {|a, b|}"
    "{|a, b|} |-| {|c|} = {|a, b|}" "{|c|} |-| {|c|} = {||}"
    "{|a, b, c|} |\<inter>| {|c|} = {|c|}" "{|a, b|} |\<inter>| {|c|} = {||}"
    "{|c|} \<noteq> {|a, b|}" "{|c|} \<noteq> {|a, b, c|}" "{|a, b|} \<noteq> {|a, b, c|}"
    "\<not> {|a, b|} |\<subset>| {|c|}" "\<not> {|c|} |\<subset>| {|a, b|}" "{|c|} |\<subset>| {|a, b, c|}"
    "\<not> {|a, b, c|} |\<subset>| {|c|}"
  using assms by (auto simp: fcard_finsert_if fcard_fempty)

lemma subset_example_infer:
  assumes "a \<noteq> b" "a \<noteq> c" "b \<noteq> c"
  shows "infer_subsets [\<lparr>cells = {|a, b|}, count = 1\<rparr>, \<lparr>cells = {|a, b, c|}, count = 2\<rparr>]
           ([\<lparr>cells = {|a, b|}, count = 1\<rparr>, \<lparr>cells = {|a, b, c|}, count = 2\<rparr>], False) =
     ([\<lparr>cells = {|a, b|}, count = 1\<rparr>, \<lparr>cells = {|a, b, c|}, count = 2\<rparr>,
       \<lparr>cells = {|c|}, count = 1\<rparr>], True)"
  using assms by (simp add: infer_subsets_def infer_pair_def derived_def three_cells[OF assms])

lemma subset_example_pass1:
  assumes "a \<noteq> b" "a \<noteq> c" "b \<noteq> c"
    "knowledge ai = [\<lparr>cells = {|a, b|}, count = 1\<rparr>, \<lparr>cells = {|a, b, c|}, count = 2\<rparr>]"
  shows "update_pass ai =
     (ai\<lparr>knowledge := [\<lparr>cells = {|a, b|}, count = 1\<rparr>, \<lparr>cells = {|a, b, c|}, count = 2\<rparr>,
                        \<lparr>cells = {|c|}, count = 1\<rparr>]\<rparr>, True)"
proof -
  note t = three_cells[OF assms(1-3)]
  have ca: "conclude_all ai = (ai, False)"
    by (rule conclude_all_nothing) (simp add: assms(4) known_safes_def known_mines_def t)
  have re: "remove_empty (knowledge ai) (knowledge ai) = knowledge ai"
    by (rule remove_empty_nothing) (simp add: assms(4))
  have inf: "infer_subsets (knowledge ai) (knowledge ai, False) =
     ([\<lparr>cells = {|a, b|}, count = 1\<rparr>, \<lparr>cells = {|a, b, c|}, count = 2\<rparr>,
       \<lparr>cells = {|c|}, count = 1\<rparr>], True)"
    using subset_example_infer[OF assms(1-3)] by (simp add: assms(4))
  show ?thesis by (simp add: update_pass_def ca re inf Let_def)
qed

lemma subset_example_pass2:
  assumes "a \<noteq> b" "a \<noteq> c" "b \<noteq> c"
    "knowledge ai = [\<lparr>cells = {|a, b|}, count = 1\<rparr>, \<lparr>cells = {|a, b, c|}, count = 2\<rparr>,
                     \<lparr>cells = {|c|}, count = 1\<rparr>]"
  shows "update_pass ai =
     (ai\<lparr>mines := finsert c (mines ai),
         knowledge := [\<lparr>cells = {|a, b|}, count = 1\<rparr>, \<lparr>cells = {|a, b|}, count = 1\<rparr>]\<rparr>, True)"
proof -
  note t = three_cells[OF assms(1-3)]
  have c0: "conclude 0 (ai, False) = (ai, False)"
    by (rule conclude_nothing) (simp_all add: assms(4) known_safes_def known_mines_def t)
  have c1: "conclude (Suc 0) (ai, False) = (ai, False)"
    by (rule conclude_nothing) (simp_all add: assms(4) known_safes_def known_mines_def t)
  have c2: "conclude 2 (ai, False) =
     (ai\<lparr>mines := finsert c (mines ai),
         knowledge := [\<lparr>cells = {|a, b|}, count = 1\<rparr>, \<lparr>cells = {|a, b|}, count = 1\<rparr>,
                       \<lparr>cells = {||}, count = 0\<rparr>]\<rparr>, True)"
    using conclude_mines[of 2 ai False]
    by (simp add: assms(4) remove_mines_def t fcard_fempty)
  have up: "[0..<length (knowledge ai)] = [0, 1, 2]"
    by (simp add: assms(4) upt_rec)
  have ca: "conclude_all ai =
     (ai\<lparr>mines := finsert c (mines ai),
         knowledge := [\<lparr>cells = {|a, b|}, count = 1\<rparr>, \<lparr>cells = {|a, b|}, count = 1\<rparr>,
                       \<lparr>cells = {||}, count = 0\<rparr>]\<rparr>, True)"
    by (simp add: conclude_all_def up c0 c1 c2)
  show ?thesis
    using assms(1-3)
    by (simp add: update_pass_def ca Let_def infer_subsets_def infer_pair_def t fcard_fempty)
qed

lemma subset_example_pass3:
  assumes "a \<noteq> b"
    "knowledge ai = [\<lparr>cells = {|a, b|}, count = 1\<rparr>, \<lparr>cells = {|a, b|}, count = 1\<rparr>]"
  shows "update_pass ai = (ai, False)"
proof -
  have f: "fcard {|a, b|} = 2" using assms(1) by (simp add: fcard_finsert_if fcard_fempty)
  have ca: "conclude_all ai = (ai, False)"
    by (rule conclude_all_nothing) (simp add: assms(2) known_safes_def known_mines_def f)
  have re: "remove_empty (knowledge ai) (knowledge ai) = knowledge ai"
    by (rule remove_empty_nothing) (simp add: assms(2))
  have inf: "infer_subsets (knowledge ai) (knowledge ai, False) = (knowledge ai, False)"
    by (simp add: assms(2) infer_subsets_def infer_pair_def)
  have "ai\<lparr>knowledge := knowledge ai\<rparr> = ai" by simp
  then show ?thesis by (simp add: update_pass_def ca re inf Let_def)
qed

lemma subset_example:
  assumes "a \<noteq> b" "a \<noteq> c" "b \<noteq> c"
    "knowledge ai = [\<lparr>cells = {|a, b|}, count = 1\<rparr>, \<lparr>cells = {|a, b, c|}, count = 2\<rparr>]"
  shows "update_knowledge ai =
     Some (ai\<lparr>mines := finsert c (mines ai),
              knowledge := [\<lparr>cells = {|a, b|}, count = 1\<rparr>, \<lparr>cells = {|a, b|}, count = 1\<rparr>]\<rparr>)"
proof -
  let ?a1 = "ai\<lparr>knowledge := [\<lparr>cells = {|a, b|}, count = 1\<rparr>,
                  \<lparr>cells = {|a, b, c|}, count = 2\<rparr>, \<lparr>cells = {|c|}, count = 1\<rparr>]\<rparr>"
  let ?a2 = "ai\<lparr>mines := finsert c (mines ai),
              knowledge := [\<lparr>cells = {|a, b|}, count = 1\<rparr>, \<lparr>cells = {|a, b|}, count = 1\<rparr>]\<rparr>"
  have p1: "update_pass ai = (?a1, True)" by (rule subset_example_pass1[OF assms])
  have p2: "update_pass ?a1 = (?a2, True)"
    using subset_example_pass2[OF assms(1-3), of ?a1] by simp
  have p3: "update_pass ?a2 = (?a2, False)"
    by (rule subset_example_pass3[OF assms(1)]) simp
  have "update_knowledge ai = update_knowledge ?a1"
    by (subst update_knowledge.simps) (simp add: p1)
  also have "\<dots> = update_knowledge ?a2"
    by (subst update_knowledge.simps) (simp add: p2)
  also have "\<dots> = Some ?a2"
    by (subst update_knowledge.simps) (simp add: p3)
  finally show ?thesis .
qed

lemma subset_resolution_aux:
  "knowledge (fst (update_pass ai)) =
     fst (infer_subsets
            (remove_empty (knowledge (fst (conclude_all ai))) (knowledge (fst (conclude_all ai))))
            (remove_empty (knowledge (fst (conclude_all ai))) (knowledge (fst (conclude_all ai))),
             snd (conclude_all ai)))
   \<and> infer_pair s1 s2 (kb, changed) =
       (if cells s1 |\<subset>| cells s2 \<and> derived s1 s2 \<notin> set kb
        then (kb @ [derived s1 s2], True) else (kb, changed))
   \<and> (\<forall>x\<in>set kb. \<forall>y\<in>set kb. cells x |\<subset>| cells y \<longrightarrow>
         derived x y \<in> set (fst (infer_subsets kb (kb, changed))))
   \<and> (\<exists>new. fst (infer_subsets kb (kb, changed)) = kb @ new \<and> distinct new
         \<and> (\<forall>n. n \<in> set new \<longleftrightarrow>
                  n \<notin> set kb \<and> (\<exists>x\<in>set kb. \<exists>y\<in>set kb. cells x |\<subset>| cells y \<and> n = derived x y))
         \<and> snd (infer_subsets kb (kb, changed)) = (changed \<or> new \<noteq> []))
   \<and> (a \<noteq> b \<and> a \<noteq> c \<and> b \<noteq> c
        \<and> knowledge ai = [\<lparr>cells = {|a, b|}, count = 1\<rparr>, \<lparr>cells = {|a, b, c|}, count = 2\<rparr>]
       \<longrightarrow> fst (infer_subsets (knowledge ai) (knowledge ai, False))
             = [\<lparr>cells = {|a, b|}, count = 1\<rparr>, \<lparr>cells = {|a, b, c|}, count = 2\<rparr>,
                \<lparr>cells = {|c|}, count = 1\<rparr>]
           \<and> (\<exists>r. update_knowledge ai = Some r \<and> c |\<in>| mines r))"
proof -
  have p0: "knowledge (fst (update_pass ai)) =
     fst (infer_subsets
            (remove_empty (knowledge (fst (conclude_all ai))) (knowledge (fst (conclude_all ai))))
            (remove_empty (knowledge (fst (conclude_all ai))) (knowledge (fst (conclude_all ai))),
             snd (conclude_all ai)))"
    by (simp add: update_pass_def Let_def split: prod.splits)
  have p1: "infer_pair s1 s2 (kb, changed) =
       (if cells s1 |\<subset>| cells s2 \<and> derived s1 s2 \<notin> set kb
        then (kb @ [derived s1 s2], True) else (kb, changed))"
    by (auto simp: infer_pair_def)
  from infer_subsets_appended[of "(kb, changed)" kb]
  obtain new where new: "fst (infer_subsets kb (kb, changed)) = kb @ new" "distinct new"
    "set new = derivable (set kb) (set kb) - set kb"
    "snd (infer_subsets kb (kb, changed)) = (changed \<or> new \<noteq> [])"
    unfolding appended_def by auto
  have p2: "\<forall>x\<in>set kb. \<forall>y\<in>set kb. cells x |\<subset>| cells y \<longrightarrow>
         derived x y \<in> set (fst (infer_subsets kb (kb, changed)))"
  proof (intro ballI impI)
    fix x y assume "x \<in> set kb" "y \<in> set kb" "cells x |\<subset>| cells y"
    then have "derived x y \<in> derivable (set kb) (set kb)" unfolding derivable_def by blast
    then show "derived x y \<in> set (fst (infer_subsets kb (kb, changed)))"
      using new(1,3) by auto
  qed
  have "\<forall>n. n \<in> set new \<longleftrightarrow>
          n \<notin> set kb \<and> (\<exists>x\<in>set kb. \<exists>y\<in>set kb. cells x |\<subset>| cells y \<and> n = derived x y)"
    unfolding new(3) derivable_def by blast
  with new(1,2,4) have p3: "\<exists>new. fst (infer_subsets kb (kb, changed)) = kb @ new \<and> distinct new
         \<and> (\<forall>n. n \<in> set new \<longleftrightarrow>
                  n \<notin> set kb \<and> (\<exists>x\<in>set kb. \<exists>y\<in>set kb. cells x |\<subset>| cells y \<and> n = derived x y))
         \<and> snd (infer_subsets kb (kb, changed)) = (changed \<or> new \<noteq> [])"
    by blast
  have p4: "a \<noteq> b \<and> a \<noteq> c \<and> b \<noteq> c
        \<and> knowledge ai = [\<lparr>cells = {|a, b|}, count = 1\<rparr>, \<lparr>cells = {|a, b, c|}, count = 2\<rparr>]
       \<longrightarrow> fst (infer_subsets (knowledge ai) (knowledge ai, False))
             = [\<lparr>cells = {|a, b|}, count = 1\<rparr>, \<lparr>cells = {|a, b, c|}, count = 2\<rparr>,
                \<lparr>cells = {|c|}, count = 1\<rparr>]
           \<and> (\<exists>r. update_knowledge ai = Some r \<and> c |\<in>| mines r)"
  proof (intro impI, elim conjE)
    assume d: "a \<noteq> b" "a \<noteq> c" "b \<noteq> c"
      and k: "knowledge ai = [\<lparr>cells = {|a, b|}, count = 1\<rparr>, \<lparr>cells = {|a, b, c|}, count = 2\<rparr>]"
    from subset_example_infer[OF d] subset_example[OF d k]
    show "fst (infer_subsets (knowledge ai) (knowledge ai, False))
             = [\<lparr>cells = {|a, b|}, count = 1\<rparr>, \<lparr>cells = {|a, b, c|}, count = 2\<rparr>,
                \<lparr>cells = {|c|}, count = 1\<rparr>]
           \<and> (\<exists>r. update_knowledge ai = Some r \<and> c |\<in>| mines r)"
      by (simp add: k)
  qed
  from p0 p1 p2 p3 p4 show ?thesis by (intro conjI)
qed

text \<open>
  C3. Subset resolution walks every ordered pair of sentences of the knowledge base as it
  stands after the clean-up. For a pair whose first cell-set is a strict subset of the
  second, the derived sentence (the difference of the cell-sets with the difference of the
  counts) is appended when no equal sentence is in the knowledge base at that moment, and
  nothing is appended otherwise. After the two loops every such derived sentence is in the
  knowledge base, the appended sentences are exactly the derived ones that were not yet
  present, each appended once, and the flag is set when one was appended. From
  \<open>{A, B} = 1\<close> and \<open>{A, B, C} = 2\<close> the step appends \<open>{C} = 1\<close>, and the propagation
  returns with \<open>C\<close> among the mines.
\<close>

theorem subset_resolution:
  "knowledge (fst (update_pass ai)) =
     fst (infer_subsets
            (remove_empty (knowledge (fst (conclude_all ai))) (knowledge (fst (conclude_all ai))))
            (remove_empty (knowledge (fst (conclude_all ai))) (knowledge (fst (conclude_all ai))),
             snd (conclude_all ai)))
   \<and> infer_pair s1 s2 (kb, changed) =
       (if cells s1 |\<subset>| cells s2
           \<and> \<lparr>cells = cells s2 |-| cells s1, count = count s2 - count s1\<rparr> \<notin> set kb
        then (kb @ [\<lparr>cells = cells s2 |-| cells s1, count = count s2 - count s1\<rparr>], True)
        else (kb, changed))
   \<and> (\<forall>x\<in>set kb. \<forall>y\<in>set kb. cells x |\<subset>| cells y \<longrightarrow>
         \<lparr>cells = cells y |-| cells x, count = count y - count x\<rparr>
           \<in> set (fst (infer_subsets kb (kb, changed))))
   \<and> (\<exists>new. fst (infer_subsets kb (kb, changed)) = kb @ new \<and> distinct new
         \<and> (\<forall>n. n \<in> set new \<longleftrightarrow>
                  n \<notin> set kb
                  \<and> (\<exists>x\<in>set kb. \<exists>y\<in>set kb. cells x |\<subset>| cells y
                        \<and> n = \<lparr>cells = cells y |-| cells x, count = count y - count x\<rparr>))
         \<and> snd (infer_subsets kb (kb, changed)) = (changed \<or> new \<noteq> []))
   \<and> (a \<noteq> b \<and> a \<noteq> c \<and> b \<noteq> c
        \<and> knowledge ai = [\<lparr>cells = {|a, b|}, count = 1\<rparr>, \<lparr>cells = {|a, b, c|}, count = 2\<rparr>]
       \<longrightarrow> fst (infer_subsets (knowledge ai) (knowledge ai, False))
             = [\<lparr>cells = {|a, b|}, count = 1\<rparr>, \<lparr>cells = {|a, b, c|}, count = 2\<rparr>,
                \<lparr>cells = {|c|}, count = 1\<rparr>]
           \<and> (\<exists>r. update_knowledge ai = Some r \<and> c |\<in>| mines r))"
  by (rule subset_resolution_aux[unfolded derived_def])

theorem subset_resolution_witness:
  "(0, 0) \<noteq> ((0, 1) :: cell) \<and> (0, 0) \<noteq> ((0, 2) :: cell) \<and> (0, 1) \<noteq> ((0, 2) :: cell)
   \<and> cells \<lparr>cells = {|(0, 0), (0, 1)|}, count = 1\<rparr>
        |\<subset>| cells \<lparr>cells = {|(0, 0), (0, 1), (0, 2)|}, count = 2\<rparr>
   \<and> \<lparr>cells = cells \<lparr>cells = {|(0, 0), (0, 1), (0, 2)|}, count = 2\<rparr>
                 |-| cells \<lparr>cells = {|(0, 0), (0, 1)|}, count = 1\<rparr>,
       count = count \<lparr>cells = {|(0, 0), (0, 1), (0, 2)|}, count = 2\<rparr>
                 - count \<lparr>cells = {|(0, 0), (0, 1)|}, count = 1\<rparr>\<rparr>
       \<in> set (fst (infer_subsets
                  [\<lparr>cells = {|(0, 0), (0, 1)|}, count = 1\<rparr>, \<lparr>cells = {|(0, 0), (0, 1), (0, 2)|}, count = 2\<rparr>]
                  ([\<lparr>cells = {|(0, 0), (0, 1)|}, count = 1\<rparr>,
                    \<lparr>cells = {|(0, 0), (0, 1), (0, 2)|}, count = 2\<rparr>], False)))
   \<and> \<lparr>cells = cells \<lparr>cells = {|(0, 0), (0, 1), (0, 2)|}, count = 2\<rparr>
                 |-| cells \<lparr>cells = {|(0, 0), (0, 1)|}, count = 1\<rparr>,
       count = count \<lparr>cells = {|(0, 0), (0, 1), (0, 2)|}, count = 2\<rparr>
                 - count \<lparr>cells = {|(0, 0), (0, 1)|}, count = 1\<rparr>\<rparr>
       = \<lparr>cells = {|(0, 2)|}, count = 1\<rparr>
   \<and> (\<exists>r. update_knowledge
          \<lparr>height = 3, width = 3, moves_made = {||}, mines = {||}, safes = {||},
           knowledge = [\<lparr>cells = {|(0, 0), (0, 1)|}, count = 1\<rparr>,
                        \<lparr>cells = {|(0, 0), (0, 1), (0, 2)|}, count = 2\<rparr>]\<rparr> = Some r
        \<and> (0, 2) |\<in>| mines r)"
proof -
  let ?A = "\<lparr>cells = {|(0, 0), (0, 1)|}, count = 1\<rparr>"
  let ?B = "\<lparr>cells = {|(0, 0), (0, 1), (0, 2)|}, count = 2\<rparr>"
  let ?ai = "\<lparr>height = 3, width = 3, moves_made = {||}, mines = {||}, safes = {||},
              knowledge = [?A, ?B]\<rparr>"
  note T = subset_resolution[of ?ai ?A ?B "[?A, ?B]" False "(0, 0)" "(0, 1)" "(0, 2)"]
  have sub: "cells ?A |\<subset>| cells ?B" by code_simp
  have d: "(0, 0) \<noteq> ((0, 1) :: cell) \<and> (0, 0) \<noteq> ((0, 2) :: cell) \<and> (0, 1) \<noteq> ((0, 2) :: cell)"
    by simp
  have k: "knowledge ?ai = [?A, ?B]" by simp
  note T2 = T[THEN conjunct2, THEN conjunct2, THEN conjunct1]
  note T4 = T[THEN conjunct2, THEN conjunct2, THEN conjunct2, THEN conjunct2]
  have m: "\<lparr>cells = cells ?B |-| cells ?A, count = count ?B - count ?A\<rparr>
      \<in> set (fst (infer_subsets [?A, ?B] ([?A, ?B], False)))"
    by (rule T2[rule_format, OF _ _ sub]) simp_all
  have v: "\<lparr>cells = cells ?B |-| cells ?A, count = count ?B - count ?A\<rparr>
      = \<lparr>cells = {|(0, 2)|}, count = 1\<rparr>"
    by code_simp
  have e: "\<exists>r. update_knowledge ?ai = Some r \<and> (0, 2) |\<in>| mines r"
    using T4[rule_format, OF conjI[OF conjunct1[OF d] conjI[OF conjunct1[OF conjunct2[OF d]]
        conjI[OF conjunct2[OF conjunct2[OF d]] k]]]]
    by (rule conjunct2)
  from d sub m v e show ?thesis by blast
qed

end
